theory Spec2Isabelle
  imports Main
begin

section \<open>Checkers rules engine of script.js\<close>

text \<open>
  A shallow embedding of the rules engine of \<^verbatim>\<open>src/script.js\<close>: the global
  \<^verbatim>\<open>state\<close> object is a record that every function takes and, where the
  source mutates it, returns updated. Coordinates are JavaScript numbers that only ever
  hold integers, modelled as \<^typ>\<open>int\<close> (a neighbour of a border cell is \<open>-1\<close> or \<open>8\<close>).

  The board is the array of arrays built by \<^verbatim>\<open>makeEmptyBoard\<close>: a list of rows,
  each a list of cells; a cell \<^verbatim>\<open>{piece: null | {color, king}}\<close> is a
  \<open>piece option\<close>. Every board access of the source happens at coordinates that are
  loop counters over \<open>0..SIZE-1\<close>, neighbours guarded by \<^verbatim>\<open>within\<close>, or the
  coordinates of a rendered square (\<^verbatim>\<open>dataset.r\<close>, \<^verbatim>\<open>dataset.c\<close>,
  \<^verbatim>\<open>state.selected\<close>); an access outside the 8 by 8 grid would raise a TypeError
  in the source and is outside this model, so the theorems about cells of the board assume
  \<open>within\<close> for them and an 8 by 8 board.

  The DOM (\<^verbatim>\<open>render\<close>, \<^verbatim>\<open>updateScoreUI\<close>) only reads the state and is left
  out; the texts passed to \<^verbatim>\<open>log\<close> and \<^verbatim>\<open>announce\<close> are returned as a list
  of events, in the order the source emits them.
\<close>

subsection \<open>Constants and state\<close>

definition SIZE :: int where
  "SIZE = 8"

datatype color = RED | BLACK

record piece =
  color :: color
  king :: bool

type_synonym board = "piece option list list"

record score =
  red :: int
  black :: int

record state =
  board :: board
  selected :: "(int \<times> int) option"
  turn :: color
  advanced :: bool
  chainFrom :: "(int \<times> int) option"
  score :: score

text \<open>The state literal the script starts with, before \<^verbatim>\<open>resetGame\<close> runs.\<close>

definition initialState :: state where
  "initialState =
     \<lparr>board = [], selected = None, turn = RED, advanced = False, chainFrom = None,
      score = \<lparr>red = 0, black = 0\<rparr>\<rparr>"

definition within :: "int \<Rightarrow> int \<Rightarrow> bool" where
  "within r c = (r \<ge> 0 \<and> r < SIZE \<and> c \<ge> 0 \<and> c < SIZE)"

text \<open>\<^verbatim>\<open>b[r][c].piece\<close> and \<^verbatim>\<open>b[r][c].piece = v\<close>, for coordinates on the board.\<close>

definition pieceAt :: "board \<Rightarrow> int \<Rightarrow> int \<Rightarrow> piece option" where
  "pieceAt b r c = b ! nat r ! nat c"

definition setPiece :: "board \<Rightarrow> int \<Rightarrow> int \<Rightarrow> piece option \<Rightarrow> board" where
  "setPiece b r c v = b[nat r := (b ! nat r)[nat c := v]]"

text \<open>\<^verbatim>\<open>(r+c)%2===1\<close>; the source computes it for non-negative coordinates only.\<close>

definition dark :: "int \<Rightarrow> int \<Rightarrow> bool" where
  "dark r c = ((r + c) mod 2 = 1)"

subsection \<open>Setup\<close>

definition makeEmptyBoard :: board where
  "makeEmptyBoard = replicate (nat SIZE) (replicate (nat SIZE) None)"

text \<open>The body of the two nested loops of \<^verbatim>\<open>setupPieces\<close>, for one cell.\<close>

definition setupCell :: "int \<Rightarrow> int \<Rightarrow> board \<Rightarrow> board" where
  "setupCell r c b =
     (if \<not> dark r c then b
      else
        (let b1 = (if r \<le> 2 then setPiece b r c (Some \<lparr>color = BLACK, king = False\<rparr>) else b)
         in if r \<ge> 5 then setPiece b1 r c (Some \<lparr>color = RED, king = False\<rparr>) else b1))"

definition setupPieces :: "board \<Rightarrow> board" where
  "setupPieces b = fold (\<lambda>r. fold (\<lambda>c. setupCell r c) [0..SIZE - 1]) [0..SIZE - 1] b"

text \<open>
  \<^verbatim>\<open>resetGame\<close> replaces the board and resets everything but the mode; what it logs
  and announces does not depend on the state and is \<open>resetGameEvents\<close> below, once the
  type of events is declared.
\<close>

definition resetGame :: "state \<Rightarrow> state" where
  "resetGame s =
     s\<lparr>board := setupPieces makeEmptyBoard, selected := None, chainFrom := None,
       turn := RED, score := \<lparr>red = 0, black = 0\<rparr>\<rparr>"

subsection \<open>Rules\<close>

definition forwardDirs :: "color \<Rightarrow> (int \<times> int) list" where
  "forwardDirs col = (if col = RED then [(-1, -1), (-1, 1)] else [(1, -1), (1, 1)])"

definition allDirs :: "(int \<times> int) list" where
  "allDirs = [(-1, -1), (-1, 1), (1, -1), (1, 1)]"

text \<open>\<^verbatim>\<open>king ? [[-1,-1],[-1,1],[1,-1],[1,1]] : forwardDirs(color)\<close>\<close>

definition dirsOf :: "piece \<Rightarrow> (int \<times> int) list" where
  "dirsOf p = (if king p then allDirs else forwardDirs (color p))"

text \<open>The \<^verbatim>\<open>for\<close> loop of \<^verbatim>\<open>legalSteps\<close> over the directions, pushing to \<open>out\<close>.\<close>

fun stepsLoop :: "board \<Rightarrow> int \<Rightarrow> int \<Rightarrow> (int \<times> int) list \<Rightarrow> (int \<times> int) list
    \<Rightarrow> (int \<times> int) list" where
  "stepsLoop b r c [] out = out"
| "stepsLoop b r c ((dr, dc) # ds) out =
     (let nr = r + dr; nc = c + dc
      in stepsLoop b r c ds
           (if within nr nc \<and> pieceAt b nr nc = None then out @ [(nr, nc)] else out))"

definition legalSteps :: "state \<Rightarrow> int \<Rightarrow> int \<Rightarrow> (int \<times> int) list" where
  "legalSteps s r c =
     (case pieceAt (board s) r c of
        None \<Rightarrow> []
      | Some p \<Rightarrow> stepsLoop (board s) r c (dirsOf p) [])"

text \<open>
  The \<^verbatim>\<open>for\<close> loop of \<^verbatim>\<open>captureMoves\<close>; \<open>col\<close> is \<^verbatim>\<open>sq.piece.color\<close>. An entry
  is \<^verbatim>\<open>[tr,tc,mr,mc]\<close>: landing row and column, then middle row and column.
\<close>

fun capsLoop :: "board \<Rightarrow> color \<Rightarrow> int \<Rightarrow> int \<Rightarrow> (int \<times> int) list
    \<Rightarrow> (int \<times> int \<times> int \<times> int) list \<Rightarrow> (int \<times> int \<times> int \<times> int) list" where
  "capsLoop b col r c [] caps = caps"
| "capsLoop b col r c ((dr, dc) # ds) caps =
     (let mr = r + dr; mc = c + dc; tr = r + 2 * dr; tc = c + 2 * dc
      in if \<not> within tr tc \<or> \<not> within mr mc then capsLoop b col r c ds caps
         else capsLoop b col r c ds
           (case pieceAt b mr mc of
              None \<Rightarrow> caps
            | Some m \<Rightarrow>
                if color m \<noteq> col \<and> pieceAt b tr tc = None
                then caps @ [(tr, tc, mr, mc)] else caps))"

definition captureMoves :: "state \<Rightarrow> int \<Rightarrow> int \<Rightarrow> (int \<times> int \<times> int \<times> int) list" where
  "captureMoves s r c =
     (case pieceAt (board s) r c of
        None \<Rightarrow> []
      | Some p \<Rightarrow> capsLoop (board s) (color p) r c (dirsOf p) [])"

text \<open>Two nested loops that return true at the first piece of the colour with a capture.\<close>

definition anyCaptureAvailable :: "state \<Rightarrow> color \<Rightarrow> bool" where
  "anyCaptureAvailable s col =
     list_ex (\<lambda>r. list_ex (\<lambda>c.
        case pieceAt (board s) r c of
          None \<Rightarrow> False
        | Some p \<Rightarrow> color p = col \<and> captureMoves s r c \<noteq> []) [0..SIZE - 1]) [0..SIZE - 1]"

definition maybeKinging :: "state \<Rightarrow> int \<Rightarrow> piece \<Rightarrow> piece" where
  "maybeKinging s r p =
     (if \<not> advanced s \<or> king p then p
      else if color p = RED \<and> r = 0 then p\<lparr>king := True\<rparr>
      else if color p = BLACK \<and> r = SIZE - 1 then p\<lparr>king := True\<rparr>
      else p)"

datatype error = TypeError

text \<open>
  \<^verbatim>\<open>movePiece(from,to)\<close>. When the origin cell is empty, \<^verbatim>\<open>moving\<close> is null:
  in simple mode \<^verbatim>\<open>maybeKinging\<close> hands the null back and it is stored at the target;
  in advanced mode \<^verbatim>\<open>piece.king\<close> raises a TypeError.
\<close>

definition movePiece :: "state \<Rightarrow> int \<times> int \<Rightarrow> int \<times> int \<Rightarrow> error + state" where
  "movePiece s from to =
     (case from of (fr, fc) \<Rightarrow> case to of (tr, tc) \<Rightarrow>
        (let moving = pieceAt (board s) fr fc;
             s1 = s\<lparr>board := setPiece (board s) fr fc None\<rparr>
         in case moving of
              None \<Rightarrow>
                if \<not> advanced s1 then Inr (s1\<lparr>board := setPiece (board s1) tr tc None\<rparr>)
                else Inl TypeError
            | Some p \<Rightarrow>
                Inr (s1\<lparr>board := setPiece (board s1) tr tc (Some (maybeKinging s1 tr p))\<rparr>)))"

record targets =
  steps :: "(int \<times> int) list"
  caps :: "(int \<times> int \<times> int \<times> int) list"

definition computeTargetsForSelection :: "state \<Rightarrow> int \<Rightarrow> int \<Rightarrow> targets" where
  "computeTargetsForSelection s sr sc =
     (case pieceAt (board s) sr sc of
        None \<Rightarrow> \<lparr>steps = [], caps = []\<rparr>
      | Some p \<Rightarrow>
          (let mustCapture =
                 (advanced s \<and> chainFrom s = None \<and> anyCaptureAvailable s (turn s));
               cs = captureMoves s sr sc
           in if advanced s \<and> (chainFrom s \<noteq> None \<or> mustCapture)
              then \<lparr>steps = [], caps = cs\<rparr>
              else \<lparr>steps = legalSteps s sr sc, caps = cs\<rparr>))"

definition removePiece :: "state \<Rightarrow> int \<Rightarrow> int \<Rightarrow> state" where
  "removePiece s r c = s\<lparr>board := setPiece (board s) r c None\<rparr>"

subsection \<open>Outputs, scoring and game over\<close>

datatype message =
    NewGame
  | MustContinueSamePiece
  | CaptureAvailableMustTake
  | IllegalMove
  | Moved color int int int int
  | Captured color color int int int int
  | AnotherCaptureAvailable
  | MoveComplete
  | GameOver color

datatype event = Log message | Announce message

definition resetGameEvents :: "event list" where
  "resetGameEvents = [Log NewGame, Announce NewGame]"

definition endTurn :: "state \<Rightarrow> state \<times> event list" where
  "endTurn s =
     (s\<lparr>selected := None, chainFrom := None, turn := (if turn s = RED then BLACK else RED)\<rparr>,
      [Announce MoveComplete])"

definition countPieces :: "state \<Rightarrow> color \<Rightarrow> nat" where
  "countPieces s col =
     fold (\<lambda>r. fold (\<lambda>c n.
        case pieceAt (board s) r c of
          None \<Rightarrow> n
        | Some p \<Rightarrow> if color p = col then n + 1 else n) [0..SIZE - 1]) [0..SIZE - 1] 0"

definition checkGameOver :: "state \<Rightarrow> event list" where
  "checkGameOver s =
     (let redRemain = countPieces s RED; blackRemain = countPieces s BLACK
      in if redRemain = 0 \<or> blackRemain = 0
         then (let winner = (if redRemain > 0 then RED else BLACK)
               in [Log (GameOver winner), Announce (GameOver winner)])
         else [])"

subsection \<open>Interaction\<close>

text \<open>Lines 187 and 188: the accepted step.\<close>

definition applyStep :: "state \<Rightarrow> int \<times> int \<Rightarrow> int \<times> int \<Rightarrow> error + state \<times> event list" where
  "applyStep s from to =
     (case movePiece s from to of
        Inl e \<Rightarrow> Inl e
      | Inr s1 \<Rightarrow>
          (case endTurn s1 of (s2, out) \<Rightarrow>
             Inr (s2, Log (Moved (turn s1) (fst from) (snd from) (fst to) (snd to)) # out)))"

text \<open>Lines 192 to 203: the accepted capture, for the entry \<^verbatim>\<open>caps[capIndex]\<close>.\<close>

definition applyCapture :: "state \<Rightarrow> int \<times> int \<Rightarrow> int \<times> int \<times> int \<times> int
    \<Rightarrow> error + state \<times> event list" where
  "applyCapture s from cap =
     (case cap of (tr, tc, mr, mc) \<Rightarrow>
        (case movePiece s from (tr, tc) of
           Inl e \<Rightarrow> Inl e
         | Inr s1 \<Rightarrow>
             (let capturedColor =
                    (case pieceAt (board s1) mr mc of
                       Some q \<Rightarrow> color q
                     | None \<Rightarrow> (if turn s1 = RED then BLACK else RED));
                  s2 = removePiece s1 mr mc;
                  s3 = (if turn s2 = RED
                        then s2\<lparr>score := (score s2)\<lparr>red := red (score s2) + 1\<rparr>\<rparr>
                        else s2\<lparr>score := (score s2)\<lparr>black := black (score s2) + 1\<rparr>\<rparr>);
                  out1 = [Log (Captured (turn s3) capturedColor mr mc tr tc)];
                  s4 = s3\<lparr>selected := Some (tr, tc), chainFrom := Some (tr, tc)\<rparr>;
                  more = captureMoves s4 tr tc;
                  out2 = out1 @ checkGameOver s4
              in if advanced s4 \<and> more \<noteq> []
                 then Inr (s4, out2 @ [Announce AnotherCaptureAvailable])
                 else (case endTurn s4 of (s5, out3) \<Rightarrow> Inr (s5, out2 @ out3)))))"

text \<open>
  \<^verbatim>\<open>onSquareClick\<close> for the square at row \<open>r\<close>, column \<open>c\<close>. \<^verbatim>\<open>isStep\<close> compares
  the keys \<^verbatim>\<open>`${r}-${c}`\<close>, which are equal exactly when the coordinates are;
  \<^verbatim>\<open>findIndex\<close> yields the first entry landing on the square.
\<close>

definition onSquareClick :: "state \<Rightarrow> int \<Rightarrow> int \<Rightarrow> error + state \<times> event list" where
  "onSquareClick s r c =
     (let cell = pieceAt (board s) r c
      in if (case cell of None \<Rightarrow> False | Some p \<Rightarrow> color p = turn s)
         then (case chainFrom s of
                 Some (cr, cc) \<Rightarrow>
                   if cr \<noteq> r \<or> cc \<noteq> c
                   then Inr (s, [Log MustContinueSamePiece, Announce MustContinueSamePiece])
                   else Inr (s\<lparr>selected := Some (r, c)\<rparr>, [])
               | None \<Rightarrow> Inr (s\<lparr>selected := Some (r, c)\<rparr>, []))
         else (case selected s of
                 None \<Rightarrow> Inr (s, [])
               | Some (sr, sc) \<Rightarrow>
                   if cell \<noteq> None then Inr (s, [])
                   else
                     (let t = computeTargetsForSelection s sr sc;
                          isStep = ((r, c) \<in> set (steps t));
                          capIndex = find (\<lambda>(rr, cc, mr, mc). rr = r \<and> cc = c) (caps t)
                      in if isStep
                         then if advanced s \<and> (chainFrom s \<noteq> None \<or> anyCaptureAvailable s (turn s))
                              then Inr (s, [Log CaptureAvailableMustTake,
                                            Announce CaptureAvailableMustTake])
                              else applyStep s (sr, sc) (r, c)
                         else (case capIndex of
                                 Some cap \<Rightarrow> applyCapture s (sr, sc) cap
                               | None \<Rightarrow> Inr (s, [Log IllegalMove, Announce IllegalMove])))))"

text \<open>The click handler of the mode button.\<close>

definition toggleMode :: "state \<Rightarrow> state" where
  "toggleMode s = s\<lparr>advanced := \<not> advanced s, chainFrom := None\<rparr>"

section \<open>Predicates and reference definitions for the properties\<close>

subsection \<open>Board and state invariants\<close>

text \<open>The board is 8 rows of 8 cells.\<close>

definition wf_board :: "board \<Rightarrow> bool" where
  "wf_board b = (length b = nat SIZE \<and> list_all (\<lambda>row. length row = nat SIZE) b)"

text \<open>
  The board invariant of the data model: an 8 by 8 grid whose occupied cells are all dark.
  A cell is a \<open>piece option\<close>, so it never holds more than one piece.
\<close>

definition boardInvariant :: "board \<Rightarrow> bool" where
  "boardInvariant b =
     (wf_board b \<and>
      list_all (\<lambda>r. list_all (\<lambda>c. pieceAt b r c \<noteq> None \<longrightarrow> dark r c) [0..SIZE - 1]) [0..SIZE - 1])"

text \<open>
  The selection, when there is one, is a square of the board holding a piece of the side
  to move: \<^verbatim>\<open>onSquareClick\<close> selects only such squares, and every change of turn
  clears the selection.
\<close>

definition stateInvariant :: "state \<Rightarrow> bool" where
  "stateInvariant s =
     (boardInvariant (board s) \<and>
      (case selected s of
         None \<Rightarrow> True
       | Some (sr, sc) \<Rightarrow>
           within sr sc \<and>
           (case pieceAt (board s) sr sc of None \<Rightarrow> False | Some p \<Rightarrow> color p = turn s)))"

text \<open>
  The states of a session: the page loads with \<^verbatim>\<open>resetGame\<close>, and then the user
  clicks squares of the rendered grid, the mode button or the new-game button.
\<close>

inductive reachable :: "state \<Rightarrow> bool" where
  start: "reachable (resetGame initialState)"
| click: "reachable s \<Longrightarrow> within r c \<Longrightarrow> onSquareClick s r c = Inr (s', out) \<Longrightarrow> reachable s'"
| toggle: "reachable s \<Longrightarrow> reachable (toggleMode s)"
| reset: "reachable s \<Longrightarrow> reachable (resetGame s)"

subsection \<open>Captures as the specification words them\<close>

definition opposite :: "color \<Rightarrow> color" where
  "opposite col = (if col = RED then BLACK else RED)"

text \<open>Up-left, up-right, down-left, down-right; up is towards row 0.\<close>

definition canonicalDirs :: "(int \<times> int) list" where
  "canonicalDirs = [(-1, -1), (-1, 1), (1, -1), (1, 1)]"

text \<open>A king may use every direction, a man the two that lead forward for its colour.\<close>

definition allowedDir :: "piece \<Rightarrow> int \<times> int \<Rightarrow> bool" where
  "allowedDir p d = (king p \<or> (if color p = RED then fst d = -1 else fst d = 1))"

text \<open>
  A capture is available in direction \<open>d\<close>: middle and landing cell in bounds, the middle
  cell holds a piece of the opposite colour, the landing cell is empty.
\<close>

definition captureAvailable :: "board \<Rightarrow> piece \<Rightarrow> int \<Rightarrow> int \<Rightarrow> int \<times> int \<Rightarrow> bool" where
  "captureAvailable b p r c d =
     (within (r + fst d) (c + snd d) \<and> within (r + 2 * fst d) (c + 2 * snd d) \<and>
      (case pieceAt b (r + fst d) (c + snd d) of
         None \<Rightarrow> False
       | Some m \<Rightarrow> color m = opposite (color p)) \<and>
      pieceAt b (r + 2 * fst d) (c + 2 * snd d) = None)"

definition captureEntry :: "int \<Rightarrow> int \<Rightarrow> int \<times> int \<Rightarrow> int \<times> int \<times> int \<times> int" where
  "captureEntry r c d = (r + 2 * fst d, c + 2 * snd d, r + fst d, c + snd d)"

definition captureMovesSpec :: "board \<Rightarrow> piece \<Rightarrow> int \<Rightarrow> int \<Rightarrow> (int \<times> int \<times> int \<times> int) list" where
  "captureMovesSpec b p r c =
     map (captureEntry r c)
       (filter (captureAvailable b p r c) (filter (allowedDir p) canonicalDirs))"

subsection \<open>Accepted moves\<close>

text \<open>
  A click on square \<open>(r, c)\<close> is an accepted capture when the selection \<open>(sr, sc)\<close> is
  offered a capture landing there over \<open>(mr, mc)\<close>, and an accepted step when it is
  offered a step there.
\<close>

definition captureClick :: "state \<Rightarrow> int \<Rightarrow> int \<Rightarrow> int \<Rightarrow> int \<Rightarrow> int \<Rightarrow> int \<Rightarrow> bool" where
  "captureClick s r c sr sc mr mc =
     (wf_board (board s) \<and> within r c \<and> within sr sc \<and> selected s = Some (sr, sc) \<and>
      (r, c, mr, mc) \<in> set (caps (computeTargetsForSelection s sr sc)))"

definition stepClick :: "state \<Rightarrow> int \<Rightarrow> int \<Rightarrow> int \<Rightarrow> int \<Rightarrow> bool" where
  "stepClick s r c sr sc =
     (wf_board (board s) \<and> within r c \<and> within sr sc \<and> selected s = Some (sr, sc) \<and>
      (r, c) \<in> set (steps (computeTargetsForSelection s sr sc)))"

text \<open>
  The state after lines 193 to 199 of an accepted capture by piece \<open>p\<close>: piece moved,
  middle cell cleared, score counted, selection and chain origin on the landing cell.
\<close>

definition afterCapture :: "state \<Rightarrow> int \<Rightarrow> int \<Rightarrow> int \<Rightarrow> int \<Rightarrow> int \<Rightarrow> int \<Rightarrow> piece \<Rightarrow> state" where
  "afterCapture s sr sc r c mr mc p =
     s\<lparr>board := setPiece (setPiece (setPiece (board s) sr sc None) r c (Some (maybeKinging s r p)))
                  mr mc None,
       score := (if turn s = RED then (score s)\<lparr>red := red (score s) + 1\<rparr>
                 else (score s)\<lparr>black := black (score s) + 1\<rparr>),
       selected := Some (r, c), chainFrom := Some (r, c)\<rparr>"

definition scoreOf :: "state \<Rightarrow> color \<Rightarrow> int" where
  "scoreOf s col = (if col = RED then red (score s) else black (score s))"

subsection \<open>Positions of the self-tests\<close>

text \<open>The boards that \<^verbatim>\<open>runTests\<close> sets up, with a selection added.\<close>

definition redMan :: piece where
  "redMan = \<lparr>color = RED, king = False\<rparr>"

definition blackMan :: piece where
  "blackMan = \<lparr>color = BLACK, king = False\<rparr>"

text \<open>"Forced capture tests": the man on (3,2) can capture, the man on (5,0) cannot.\<close>

definition forcedState :: state where
  "forcedState =
     \<lparr>board = setPiece (setPiece (setPiece makeEmptyBoard 5 0 (Some redMan)) 3 2 (Some redMan))
                2 3 (Some blackMan),
      selected = Some (5, 0), turn = RED, advanced = True, chainFrom = None,
      score = \<lparr>red = 0, black = 0\<rparr>\<rparr>"

text \<open>"King then continue backward", before the first capture and after it.\<close>

definition kingChainState :: state where
  "kingChainState =
     \<lparr>board = setPiece (setPiece (setPiece makeEmptyBoard 2 1 (Some redMan)) 1 2 (Some blackMan))
                1 4 (Some blackMan),
      selected = Some (2, 1), turn = RED, advanced = True, chainFrom = None,
      score = \<lparr>red = 0, black = 0\<rparr>\<rparr>"

definition kingChainAfter :: state where
  "kingChainAfter =
     \<lparr>board = setPiece (setPiece makeEmptyBoard 0 3 (Some (redMan\<lparr>king := True\<rparr>)))
                1 4 (Some blackMan),
      selected = Some (0, 3), turn = RED, advanced = True, chainFrom = Some (0, 3),
      score = \<lparr>red = 1, black = 0\<rparr>\<rparr>"

text \<open>"Red capture 3,2 -> 1,4", in simple mode.\<close>

definition simpleCaptureState :: state where
  "simpleCaptureState =
     \<lparr>board = setPiece (setPiece makeEmptyBoard 3 2 (Some redMan)) 2 3 (Some blackMan),
      selected = Some (3, 2), turn = RED, advanced = False, chainFrom = None,
      score = \<lparr>red = 0, black = 0\<rparr>\<rparr>"

text \<open>
  "Multi-jump (no kinging)": \<^verbatim>\<open>runTests\<close> places these three men on light cells
  and calls \<^verbatim>\<open>captureMoves(5,1)\<close>; the preceding \<^verbatim>\<open>resetGame\<close> has cleared the
  selection, the chain origin and the scores.
\<close>

definition multiJumpState :: state where
  "multiJumpState =
     \<lparr>board = setPiece (setPiece (setPiece makeEmptyBoard 5 1 (Some redMan)) 4 2 (Some blackMan))
                2 4 (Some blackMan),
      selected = None, turn = RED, advanced = True, chainFrom = None,
      score = \<lparr>red = 0, black = 0\<rparr>\<rparr>"

text \<open>The initial placement with the red man on (5,0) selected.\<close>

definition openingState :: state where
  "openingState = (resetGame initialState)\<lparr>selected := Some (5, 0)\<rparr>"

section \<open>Properties\<close>

subsection \<open>Coordinates, cells and loops\<close>

lemma within_iff: "within r c \<longleftrightarrow> 0 \<le> r \<and> r \<le> 7 \<and> 0 \<le> c \<and> c \<le> 7"
  by (auto simp: within_def SIZE_def)

lemma wf_board_nth: "wf_board b \<Longrightarrow> within r c \<Longrightarrow> nat r < length b \<and> nat c < length (b ! nat r)"
  by (auto simp: wf_board_def list_all_length within_iff SIZE_def)

lemma wf_setPiece:
  assumes "wf_board b"
  shows "wf_board (setPiece b r c v)"
proof (cases "nat r < length b")
  case True
  with assms show ?thesis
    by (auto simp: wf_board_def setPiece_def list_all_length nth_list_update)
next
  case False
  then have "length b \<le> nat r" by simp
  then have "setPiece b r c v = b" unfolding setPiece_def by (rule list_update_beyond)
  with assms show ?thesis by simp
qed

lemma pieceAt_setPiece:
  assumes "wf_board b" and "within r c" and "within i j"
  shows "pieceAt (setPiece b r c v) i j = (if i = r \<and> j = c then v else pieceAt b i j)"
proof -
  from wf_board_nth[OF assms(1,2)] have l: "nat r < length b" "nat c < length (b ! nat r)" by auto
  from assms(2,3) have e: "nat i = nat r \<longleftrightarrow> i = r" "nat j = nat c \<longleftrightarrow> j = c"
    by (auto simp: within_iff)
  show ?thesis using l e by (auto simp: pieceAt_def setPiece_def nth_list_update)
qed

lemma boardInvariant_iff:
  "boardInvariant b \<longleftrightarrow>
     wf_board b \<and> (\<forall>r c. within r c \<longrightarrow> pieceAt b r c \<noteq> None \<longrightarrow> dark r c)"
  by (auto simp: boardInvariant_def list_all_iff within_def SIZE_def)

lemma boardInvariant_dark:
  "boardInvariant b \<Longrightarrow> within r c \<Longrightarrow> pieceAt b r c = Some p \<Longrightarrow> dark r c"
  by (auto simp: boardInvariant_def list_all_iff within_iff SIZE_def)

lemma boardInvariant_setPiece:
  assumes "boardInvariant b" and "within r c" and "v \<noteq> None \<longrightarrow> dark r c"
  shows "boardInvariant (setPiece b r c v)"
  using assms by (auto simp: boardInvariant_iff wf_setPiece pieceAt_setPiece)

lemma opposite_iff: "color m = opposite col \<longleftrightarrow> color m \<noteq> col"
  by (cases "color m"; cases col) (auto simp: opposite_def)

lemma color_maybeKinging: "color (maybeKinging s r p) = color p"
  by (simp add: maybeKinging_def)

text \<open>
  Both loops over the directions keep what was pushed before and append one entry for each
  direction that passes the test, in the order of the directions.
\<close>

lemma stepsLoop_eq:
  "stepsLoop b r c ds out =
     out @ map (\<lambda>d. (r + fst d, c + snd d))
             (filter (\<lambda>d. within (r + fst d) (c + snd d) \<and> pieceAt b (r + fst d) (c + snd d) = None) ds)"
  by (induction ds arbitrary: out) (auto simp: Let_def)

lemma capsLoop_eq:
  "capsLoop b (color p) r c ds acc =
     acc @ map (captureEntry r c) (filter (captureAvailable b p r c) ds)"
proof (induction ds arbitrary: acc)
  case Nil
  show ?case by simp
next
  case (Cons d ds)
  obtain dr dc where d: "d = (dr, dc)" by (cases d)
  show ?case
    unfolding d
    by (cases "pieceAt b (r + dr) (c + dc)")
       (simp_all add: Cons.IH Let_def captureEntry_def captureAvailable_def opposite_iff)
qed

lemma captureEntry_inj: "captureEntry r c d = captureEntry r c e \<longleftrightarrow> d = e"
  by (auto simp: captureEntry_def prod_eq_iff)

lemma dirsOf_eq: "dirsOf p = filter (allowedDir p) canonicalDirs"
  by (auto simp: dirsOf_def allowedDir_def canonicalDirs_def allDirs_def forwardDirs_def)

lemma dirs_unit: "d \<in> set (dirsOf p) \<Longrightarrow> (fst d = 1 \<or> fst d = -1) \<and> (snd d = 1 \<or> snd d = -1)"
  by (auto simp: dirsOf_def allDirs_def forwardDirs_def split: if_splits)

lemma dark_shift:
  "dark r c \<Longrightarrow> (dr = 1 \<or> dr = -1) \<Longrightarrow> (dc = 1 \<or> dc = -1) \<Longrightarrow>
     dark (r + dr) (c + dc) \<and> dark (r + 2 * dr) (c + 2 * dc)"
  unfolding dark_def by presburger

subsection \<open>What the entries of legalSteps and captureMoves say\<close>

lemma legalSteps_piece:
  "(nr, nc) \<in> set (legalSteps s r c) \<Longrightarrow> \<exists>p. pieceAt (board s) r c = Some p"
  by (cases "pieceAt (board s) r c") (simp_all add: legalSteps_def)

lemma captureMoves_piece:
  "(tr, tc, mr, mc) \<in> set (captureMoves s r c) \<Longrightarrow> \<exists>p. pieceAt (board s) r c = Some p"
  by (cases "pieceAt (board s) r c") (simp_all add: captureMoves_def)

lemma legalSteps_mem:
  assumes "pieceAt (board s) r c = Some p" and "(nr, nc) \<in> set (legalSteps s r c)"
  shows "\<exists>d \<in> set (dirsOf p). nr = r + fst d \<and> nc = c + snd d \<and> within nr nc \<and> pieceAt (board s) nr nc = None"
  using assms by (auto simp: legalSteps_def stepsLoop_eq)

lemma captureMoves_mem:
  assumes "pieceAt (board s) r c = Some p" and "(tr, tc, mr, mc) \<in> set (captureMoves s r c)"
  shows "\<exists>d \<in> set (dirsOf p). tr = r + 2 * fst d \<and> tc = c + 2 * snd d \<and> mr = r + fst d \<and> mc = c + snd d
           \<and> captureAvailable (board s) p r c d"
  using assms by (auto simp: captureMoves_def capsLoop_eq captureEntry_def)

lemma legalSteps_facts:
  assumes "pieceAt (board s) sr sc = Some p" and "(r, c) \<in> set (legalSteps s sr sc)"
  shows "within r c" and "pieceAt (board s) r c = None" and "\<bar>r - sr\<bar> = 1" and "\<bar>c - sc\<bar> = 1"
proof -
  from legalSteps_mem[OF assms] obtain d where
    d: "d \<in> set (dirsOf p)" "r = sr + fst d" "c = sc + snd d" "within r c" "pieceAt (board s) r c = None"
    by blast
  note u = dirs_unit[OF d(1)]
  show "within r c" "pieceAt (board s) r c = None" using d by auto
  show "\<bar>r - sr\<bar> = 1" "\<bar>c - sc\<bar> = 1" using d u by auto
qed

lemma captureMoves_facts:
  assumes "pieceAt (board s) sr sc = Some p" and "(r, c, mr, mc) \<in> set (captureMoves s sr sc)"
  shows "within r c" and "within mr mc" and "pieceAt (board s) r c = None"
    and "\<exists>m. pieceAt (board s) mr mc = Some m \<and> color m \<noteq> color p"
    and "\<bar>r - sr\<bar> = 2" and "\<bar>c - sc\<bar> = 2" and "2 * mr = sr + r" and "2 * mc = sc + c"
proof -
  from captureMoves_mem[OF assms] obtain d where
    d: "d \<in> set (dirsOf p)" "r = sr + 2 * fst d" "c = sc + 2 * snd d" "mr = sr + fst d" "mc = sc + snd d"
       "captureAvailable (board s) p sr sc d" by blast
  note u = dirs_unit[OF d(1)]
  show "within r c" "within mr mc" "pieceAt (board s) r c = None"
    using d by (auto simp: captureAvailable_def)
  show "\<exists>m. pieceAt (board s) mr mc = Some m \<and> color m \<noteq> color p"
    using d by (auto simp: captureAvailable_def opposite_iff split: option.splits)
  show "\<bar>r - sr\<bar> = 2" "\<bar>c - sc\<bar> = 2" "2 * mr = sr + r" "2 * mc = sc + c"
    using d u by auto
qed

lemma legalSteps_dark:
  assumes "boardInvariant (board s)" and "within sr sc" and "(r, c) \<in> set (legalSteps s sr sc)"
  shows "within r c \<and> dark r c"
proof -
  from legalSteps_piece[OF assms(3)] obtain p where p: "pieceAt (board s) sr sc = Some p" by blast
  have d: "dark sr sc" using assms(1,2) p by (rule boardInvariant_dark)
  from legalSteps_mem[OF p assms(3)] d dirs_unit dark_shift show ?thesis by blast
qed

lemma captureMoves_dark:
  assumes "boardInvariant (board s)" and "within sr sc"
    and "(r, c, mr, mc) \<in> set (captureMoves s sr sc)"
  shows "within r c \<and> dark r c \<and> within mr mc \<and> dark mr mc"
proof -
  from captureMoves_piece[OF assms(3)] obtain p where p: "pieceAt (board s) sr sc = Some p" by blast
  have d: "dark sr sc" using assms(1,2) p by (rule boardInvariant_dark)
  from captureMoves_mem[OF p assms(3)] obtain e where
    e: "e \<in> set (dirsOf p)" "r = sr + 2 * fst e" "c = sc + 2 * snd e" "mr = sr + fst e" "mc = sc + snd e"
       "captureAvailable (board s) p sr sc e" by blast
  from dirs_unit[OF e(1)] d have "dark (sr + fst e) (sc + snd e) \<and> dark (sr + 2 * fst e) (sc + 2 * snd e)"
    by (intro dark_shift) auto
  with e show ?thesis by (auto simp: captureAvailable_def)
qed

lemma captureMoves_board: "board s = board t \<Longrightarrow> captureMoves s r c = captureMoves t r c"
  by (simp add: captureMoves_def cong: option.case_cong)

lemma countPieces_board: "board s = board t \<Longrightarrow> countPieces s col = countPieces t col"
  by (simp add: countPieces_def)

subsection \<open>Targets offered to a selection\<close>

lemma caps_computeTargets:
  "caps (computeTargetsForSelection s sr sc) = captureMoves s sr sc"
  by (cases "pieceAt (board s) sr sc")
     (simp_all add: computeTargetsForSelection_def captureMoves_def Let_def)

lemma steps_computeTargets:
  "steps (computeTargetsForSelection s sr sc) =
     (if advanced s \<and> (chainFrom s \<noteq> None \<or> anyCaptureAvailable s (turn s)) then []
      else legalSteps s sr sc)"
  by (cases "pieceAt (board s) sr sc")
     (auto simp add: computeTargetsForSelection_def legalSteps_def Let_def)

lemma find_landing:
  assumes "pieceAt (board s) sr sc = Some p" and "(r, c, mr, mc) \<in> set (captureMoves s sr sc)"
  shows "find (\<lambda>(rr, cc, mr, mc). rr = r \<and> cc = c) (captureMoves s sr sc) = Some (r, c, mr, mc)"
proof (cases "find (\<lambda>(rr, cc, mr, mc). rr = r \<and> cc = c) (captureMoves s sr sc)")
  case None
  with assms(2) show ?thesis by (auto simp: find_None_iff)
next
  case (Some x)
  obtain r' c' mr' mc' where x: "x = (r', c', mr', mc')" by (cases x)
  from Some have "x \<in> set (captureMoves s sr sc)" and "r' = r \<and> c' = c"
    unfolding x by (auto simp: find_Some_iff in_set_conv_nth)
  then have m: "(r, c, mr', mc') \<in> set (captureMoves s sr sc)" by (simp add: x)
  from captureMoves_facts(7,8)[OF assms] captureMoves_facts(7,8)[OF assms(1) m]
  have "mr' = mr" "mc' = mc" by auto
  with Some x \<open>r' = r \<and> c' = c\<close> show ?thesis by simp
qed

subsection \<open>The click handler, branch by branch\<close>

lemma movePiece_Some:
  "pieceAt (board s) fr fc = Some p \<Longrightarrow>
     movePiece s (fr, fc) (tr, tc) =
       Inr (s\<lparr>board := setPiece (setPiece (board s) fr fc None) tr tc (Some (maybeKinging s tr p))\<rparr>)"
  by (simp add: movePiece_def Let_def maybeKinging_def)

lemma applyCapture_eq:
  assumes "wf_board (board s)" and "within sr sc" and "within r c" and "within mr mc"
    and "pieceAt (board s) sr sc = Some p"
  shows "applyCapture s (sr, sc) (r, c, mr, mc) =
     (let s4 = afterCapture s sr sc r c mr mc p;
          q = pieceAt (setPiece (setPiece (board s) sr sc None) r c (Some (maybeKinging s r p))) mr mc;
          out = Log (Captured (turn s) (case q of Some m \<Rightarrow> color m
                                               | None \<Rightarrow> (if turn s = RED then BLACK else RED)) mr mc r c)
                  # checkGameOver s4
      in if advanced s \<and> captureMoves s4 r c \<noteq> []
         then Inr (s4, out @ [Announce AnotherCaptureAvailable])
         else Inr (s4\<lparr>selected := None, chainFrom := None, turn := opposite (turn s)\<rparr>,
                   out @ [Announce MoveComplete]))"
  using assms(5)
  by (simp add: applyCapture_def movePiece_Some removePiece_def afterCapture_def endTurn_def
      Let_def opposite_def)

lemma capture_click:
  assumes "captureClick s r c sr sc mr mc"
  shows "\<exists>p. pieceAt (board s) sr sc = Some p \<and> within mr mc \<and>
             onSquareClick s r c = applyCapture s (sr, sc) (r, c, mr, mc)"
proof -
  from assms have wf: "wf_board (board s)" and w: "within r c" "within sr sc"
    and sel: "selected s = Some (sr, sc)"
    and mem: "(r, c, mr, mc) \<in> set (captureMoves s sr sc)"
    by (auto simp: captureClick_def caps_computeTargets)
  from captureMoves_piece[OF mem] obtain p where p: "pieceAt (board s) sr sc = Some p" by blast
  note f = captureMoves_facts[OF p mem]
  have nostep: "(r, c) \<notin> set (steps (computeTargetsForSelection s sr sc))"
  proof
    assume "(r, c) \<in> set (steps (computeTargetsForSelection s sr sc))"
    then have "(r, c) \<in> set (legalSteps s sr sc)"
      by (auto simp: steps_computeTargets split: if_splits)
    from legalSteps_facts(3)[OF p this] f(5) show False by simp
  qed
  have "onSquareClick s r c = applyCapture s (sr, sc) (r, c, mr, mc)"
    using f(3) sel nostep find_landing[OF p mem]
    by (simp add: onSquareClick_def Let_def caps_computeTargets)
  with p f(2) show ?thesis by blast
qed

lemma step_click:
  assumes "stepClick s r c sr sc"
  shows "\<exists>p. pieceAt (board s) sr sc = Some p \<and>
     onSquareClick s r c =
       Inr (s\<lparr>board := setPiece (setPiece (board s) sr sc None) r c (Some (maybeKinging s r p)),
              selected := None, chainFrom := None, turn := opposite (turn s)\<rparr>,
            [Log (Moved (turn s) sr sc r c), Announce MoveComplete])"
proof -
  from assms have sel: "selected s = Some (sr, sc)"
    and st: "(r, c) \<in> set (steps (computeTargetsForSelection s sr sc))"
    by (auto simp: stepClick_def)
  from st have free: "\<not> (advanced s \<and> (chainFrom s \<noteq> None \<or> anyCaptureAvailable s (turn s)))"
    and mem: "(r, c) \<in> set (legalSteps s sr sc)"
    by (auto simp: steps_computeTargets split: if_splits)
  from legalSteps_piece[OF mem] obtain p where p: "pieceAt (board s) sr sc = Some p" by blast
  note f = legalSteps_facts[OF p mem]
  have "onSquareClick s r c =
       Inr (s\<lparr>board := setPiece (setPiece (board s) sr sc None) r c (Some (maybeKinging s r p)),
              selected := None, chainFrom := None, turn := opposite (turn s)\<rparr>,
            [Log (Moved (turn s) sr sc r c), Announce MoveComplete])"
    using f(2) sel st free
    by (simp add: onSquareClick_def Let_def applyStep_def movePiece_Some[OF p] endTurn_def
        opposite_def)
  with p show ?thesis by blast
qed

lemma onSquareClick_cases:
  assumes "wf_board (board s)" and "within r c"
    and "\<forall>sr sc. selected s = Some (sr, sc) \<longrightarrow> within sr sc"
  obtains
    (select) p where "pieceAt (board s) r c = Some p" and "color p = turn s"
      and "onSquareClick s r c = Inr (s\<lparr>selected := Some (r, c)\<rparr>, [])"
  | (reject) out where "onSquareClick s r c = Inr (s, out)"
  | (step) sr sc where "stepClick s r c sr sc"
  | (capture) sr sc mr mc where "captureClick s r c sr sc mr mc"
proof (cases "case pieceAt (board s) r c of None \<Rightarrow> False | Some p \<Rightarrow> color p = turn s")
  case True
  then obtain p where p: "pieceAt (board s) r c = Some p" "color p = turn s"
    by (auto split: option.splits)
  show ?thesis
  proof (cases "\<exists>cr cc. chainFrom s = Some (cr, cc) \<and> (cr \<noteq> r \<or> cc \<noteq> c)")
    case True
    with p have "onSquareClick s r c =
        Inr (s, [Log MustContinueSamePiece, Announce MustContinueSamePiece])"
      by (auto simp: onSquareClick_def)
    then show ?thesis by (rule reject)
  next
    case False
    with p have "onSquareClick s r c = Inr (s\<lparr>selected := Some (r, c)\<rparr>, [])"
      by (auto simp: onSquareClick_def split: option.splits)
    with p show ?thesis by (rule select)
  qed
next
  case notmine: False
  show ?thesis
  proof (cases "selected s")
    case None
    with notmine have "onSquareClick s r c = Inr (s, [])"
      by (simp add: onSquareClick_def)
    then show ?thesis by (rule reject)
  next
    case (Some a)
    obtain sr' sc' where a: "a = (sr', sc')" by (cases a)
    show ?thesis
    proof (cases "pieceAt (board s) r c")
      case occupied: (Some q)
      with notmine Some a have "onSquareClick s r c = Inr (s, [])"
        by (simp add: onSquareClick_def)
      then show ?thesis by (rule reject)
    next
      case empty: None
      from assms Some a have w: "wf_board (board s)" "within r c" "within sr' sc'"
        by simp_all
      let ?t = "computeTargetsForSelection s sr' sc'"
      show ?thesis
      proof (cases "(r, c) \<in> set (steps ?t)")
        case True
        with Some a w have "stepClick s r c sr' sc'" by (simp add: stepClick_def)
        then show ?thesis by (rule step)
      next
        case nostep: False
        show ?thesis
        proof (cases "find (\<lambda>(rr, cc, mr, mc). rr = r \<and> cc = c) (caps ?t)")
          case None
          with notmine Some a empty nostep have
            "onSquareClick s r c = Inr (s, [Log IllegalMove, Announce IllegalMove])"
            by (simp add: onSquareClick_def Let_def)
          then show ?thesis by (rule reject)
        next
          case found: (Some cap)
          obtain r' c' mr mc where cap: "cap = (r', c', mr, mc)" by (cases cap)
          from found have "cap \<in> set (caps ?t)" and "r' = r \<and> c' = c"
            unfolding cap by (auto simp: find_Some_iff in_set_conv_nth)
          with cap Some a w have "captureClick s r c sr' sc' mr mc"
            by (simp add: captureClick_def)
          then show ?thesis by (rule capture)
        qed
      qed
    qed
  qed
qed

lemma afterCapture_board:
  assumes "wf_board (board s)" and "within sr sc" and "within r c" and "within mr mc"
    and "within i j"
  shows "pieceAt (board (afterCapture s sr sc r c mr mc p)) i j =
     (if i = mr \<and> j = mc then None
      else if i = r \<and> j = c then Some (maybeKinging s r p)
      else if i = sr \<and> j = sc then None
      else pieceAt (board s) i j)"
  using assms by (auto simp add: afterCapture_def pieceAt_setPiece wf_setPiece)

lemma capture_result:
  assumes "captureClick s r c sr sc mr mc"
  shows "\<exists>p out. pieceAt (board s) sr sc = Some p \<and>
     onSquareClick s r c =
       Inr (if advanced s \<and> captureMoves (afterCapture s sr sc r c mr mc p) r c \<noteq> []
            then afterCapture s sr sc r c mr mc p
            else (afterCapture s sr sc r c mr mc p)
                   \<lparr>selected := None, chainFrom := None, turn := opposite (turn s)\<rparr>, out)"
proof -
  from capture_click[OF assms] obtain p where p: "pieceAt (board s) sr sc = Some p"
    and m: "within mr mc"
    and e: "onSquareClick s r c = applyCapture s (sr, sc) (r, c, mr, mc)" by blast
  from assms have "wf_board (board s)" "within sr sc" "within r c"
    by (auto simp: captureClick_def)
  from applyCapture_eq[OF this(1,2,3) m p] e p show ?thesis
    by (auto simp: Let_def)
qed

lemma captureClick_facts:
  assumes "captureClick s r c sr sc mr mc" and "pieceAt (board s) sr sc = Some p"
  shows "wf_board (board s)" and "within sr sc" and "within r c" and "within mr mc"
    and "pieceAt (board s) r c = None"
    and "\<exists>m. pieceAt (board s) mr mc = Some m \<and> color m \<noteq> color p"
    and "(sr, sc) \<noteq> (r, c)" and "(sr, sc) \<noteq> (mr, mc)" and "(mr, mc) \<noteq> (r, c)"
proof -
  from assms(1) have mem: "(r, c, mr, mc) \<in> set (captureMoves s sr sc)"
    by (simp add: captureClick_def caps_computeTargets)
  note f = captureMoves_facts[OF assms(2) mem]
  show "wf_board (board s)" "within sr sc" "within r c"
    using assms(1) by (auto simp: captureClick_def)
  show "within mr mc" "pieceAt (board s) r c = None"
    "\<exists>m. pieceAt (board s) mr mc = Some m \<and> color m \<noteq> color p"
    using f by auto
  show "(sr, sc) \<noteq> (r, c)" "(sr, sc) \<noteq> (mr, mc)" "(mr, mc) \<noteq> (r, c)"
    using f(5,7) by auto
qed

subsection \<open>Invariants of a session\<close>

lemma stateInvariant_iff:
  "stateInvariant s \<longleftrightarrow>
     boardInvariant (board s) \<and>
     (\<forall>sr sc. selected s = Some (sr, sc) \<longrightarrow>
        within sr sc \<and> (\<exists>p. pieceAt (board s) sr sc = Some p \<and> color p = turn s))"
  by (auto simp: stateInvariant_def split: option.splits)

lemma boardInvariant_afterCapture:
  assumes "boardInvariant (board s)" and "within sr sc" and "within r c" and "within mr mc"
    and "dark r c"
  shows "boardInvariant (board (afterCapture s sr sc r c mr mc p))"
  using assms by (simp add: afterCapture_def boardInvariant_setPiece)

text \<open>
  A click on any square of the grid returns (the TypeError branch of \<open>movePiece\<close> is never
  reached) and keeps the invariant.
\<close>

lemma stateInvariant_click:
  assumes "stateInvariant s" and "within r c"
  shows "\<exists>s' out. onSquareClick s r c = Inr (s', out) \<and> stateInvariant s'"
proof -
  from assms(1) have bi: "boardInvariant (board s)" by (simp add: stateInvariant_iff)
  then have wf: "wf_board (board s)" by (simp add: boardInvariant_def)
  have sel: "within sr sc" if "selected s = Some (sr, sc)" for sr sc
    using assms(1) that by (simp add: stateInvariant_iff)
  have own: "\<exists>q. pieceAt (board s) sr sc = Some q \<and> color q = turn s"
    if "selected s = Some (sr, sc)" for sr sc
    using assms(1) that by (simp add: stateInvariant_iff)
  from sel have "\<forall>sr sc. selected s = Some (sr, sc) \<longrightarrow> within sr sc" by blast
  with wf assms(2) show ?thesis
  proof (cases rule: onSquareClick_cases)
    case (select p)
    with bi assms(2) have "stateInvariant (s\<lparr>selected := Some (r, c)\<rparr>)"
      by (simp add: stateInvariant_iff)
    with select(3) show ?thesis by blast
  next
    case (reject out)
    with assms(1) show ?thesis by blast
  next
    case (step sr sc)
    from step have w: "within sr sc" and mem: "(r, c) \<in> set (legalSteps s sr sc)"
      by (auto simp: stepClick_def steps_computeTargets split: if_splits)
    from legalSteps_dark[OF bi w mem] have d: "dark r c" by simp
    from step_click[OF step] obtain p where
      e: "onSquareClick s r c =
        Inr (s\<lparr>board := setPiece (setPiece (board s) sr sc None) r c (Some (maybeKinging s r p)),
               selected := None, chainFrom := None, turn := opposite (turn s)\<rparr>,
             [Log (Moved (turn s) sr sc r c), Announce MoveComplete])" by blast
    have "boardInvariant (setPiece (setPiece (board s) sr sc None) r c (Some (maybeKinging s r p)))"
      using bi w assms(2) d by (simp add: boardInvariant_setPiece)
    then have "stateInvariant
        (s\<lparr>board := setPiece (setPiece (board s) sr sc None) r c (Some (maybeKinging s r p)),
           selected := None, chainFrom := None, turn := opposite (turn s)\<rparr>)"
      by (simp add: stateInvariant_iff)
    with e show ?thesis by blast
  next
    case (capture sr sc mr mc)
    from capture_result[OF capture] obtain p out where p: "pieceAt (board s) sr sc = Some p"
      and e: "onSquareClick s r c =
       Inr (if advanced s \<and> captureMoves (afterCapture s sr sc r c mr mc p) r c \<noteq> []
            then afterCapture s sr sc r c mr mc p
            else (afterCapture s sr sc r c mr mc p)
                   \<lparr>selected := None, chainFrom := None, turn := opposite (turn s)\<rparr>, out)"
      by blast
    note f = captureClick_facts[OF capture p]
    from capture have selc: "selected s = Some (sr, sc)"
      and mem: "(r, c, mr, mc) \<in> set (captureMoves s sr sc)"
      by (auto simp: captureClick_def caps_computeTargets)
    from own[OF selc] p have col: "color p = turn s" by simp
    from captureMoves_dark[OF bi f(2) mem] have d: "dark r c" by simp
    let ?s4 = "afterCapture s sr sc r c mr mc p"
    have b4: "boardInvariant (board ?s4)"
      using bi f(2,3,4) d by (rule boardInvariant_afterCapture)
    have "pieceAt (board ?s4) r c = Some (maybeKinging s r p)"
      using afterCapture_board[OF f(1,2,3,4) f(3), of p] f(9) by auto
    moreover have "selected ?s4 = Some (r, c)" "turn ?s4 = turn s"
      by (simp_all add: afterCapture_def)
    ultimately have i4: "stateInvariant ?s4"
      using b4 f(3) col by (simp add: stateInvariant_iff color_maybeKinging)
    from b4 have i5: "stateInvariant
        (?s4\<lparr>selected := None, chainFrom := None, turn := opposite (turn s)\<rparr>)"
      by (simp add: stateInvariant_iff)
    from e i4 i5 show ?thesis by (auto split: if_splits)
  qed
qed

lemma boardInvariant_initial: "boardInvariant (setupPieces makeEmptyBoard)"
  by code_simp

lemma stateInvariant_resetGame: "stateInvariant (resetGame s)"
  using boardInvariant_initial by (simp add: stateInvariant_iff resetGame_def)

lemma stateInvariant_toggleMode: "stateInvariant s \<Longrightarrow> stateInvariant (toggleMode s)"
  by (simp add: stateInvariant_iff toggleMode_def)

lemma reachable_stateInvariant: "reachable s \<Longrightarrow> stateInvariant s"
proof (induction rule: reachable.induct)
  case start
  show ?case by (rule stateInvariant_resetGame)
next
  case (click s r c s' out)
  from stateInvariant_click[OF click.IH click.hyps(2)] click.hyps(3) show ?case by auto
next
  case (toggle s)
  then show ?case by (simp add: stateInvariant_toggleMode)
next
  case (reset s)
  show ?case by (rule stateInvariant_resetGame)
qed

lemma reachable_click_total:
  assumes "reachable s" and "within r c"
  shows "\<exists>s' out. onSquareClick s r c = Inr (s', out) \<and> reachable s'"
proof -
  from stateInvariant_click[OF reachable_stateInvariant[OF assms(1)] assms(2)]
  obtain s' out where e: "onSquareClick s r c = Inr (s', out)" by blast
  with assms have "reachable s'" by (rule reachable.click)
  with e show ?thesis by blast
qed

subsection \<open>Events of a click\<close>

lemma checkGameOver_events:
  "e \<in> set (checkGameOver s) \<Longrightarrow> \<exists>col. e = Log (GameOver col) \<or> e = Announce (GameOver col)"
  by (auto simp: checkGameOver_def Let_def split: if_splits)

lemma applyStep_events:
  "applyStep s from to = Inr (s', out) \<Longrightarrow>
     Log CaptureAvailableMustTake \<notin> set out \<and> Announce CaptureAvailableMustTake \<notin> set out"
  by (auto simp: applyStep_def endTurn_def split: sum.splits)

lemma applyCapture_events:
  assumes "applyCapture s from cap = Inr (s', out)"
  shows "Log CaptureAvailableMustTake \<notin> set out \<and> Announce CaptureAvailableMustTake \<notin> set out"
proof -
  obtain tr tc mr mc where cap: "cap = (tr, tc, mr, mc)" by (cases cap)
  from assms show ?thesis
    unfolding cap applyCapture_def endTurn_def Let_def
    by (auto split: sum.splits if_splits dest: checkGameOver_events)
qed

text \<open>
  No click ever emits the forced-capture message: the branch of \<^verbatim>\<open>onSquareClick\<close> that
  logs it needs a step target, and under the very condition it tests
  \<^verbatim>\<open>computeTargetsForSelection\<close> has already emptied the steps.
\<close>

lemma forced_capture_message_unreachable:
  assumes "onSquareClick s r c = Inr (s', out)"
  shows "Log CaptureAvailableMustTake \<notin> set out \<and> Announce CaptureAvailableMustTake \<notin> set out"
proof (cases "case pieceAt (board s) r c of None \<Rightarrow> False | Some p \<Rightarrow> color p = turn s")
  case True
  with assms show ?thesis
    by (auto simp: onSquareClick_def split: option.splits if_splits)
next
  case notmine: False
  show ?thesis
  proof (cases "selected s")
    case None
    with notmine assms show ?thesis by (auto simp: onSquareClick_def)
  next
    case (Some a)
    obtain sr sc where a: "a = (sr, sc)" by (cases a)
    let ?t = "computeTargetsForSelection s sr sc"
    show ?thesis
    proof (cases "pieceAt (board s) r c")
      case occupied: (Some q)
      with notmine Some a assms show ?thesis by (auto simp: onSquareClick_def)
    next
      case empty: None
      show ?thesis
      proof (cases "(r, c) \<in> set (steps ?t)")
        case True
        then have free: "\<not> (advanced s \<and> (chainFrom s \<noteq> None \<or> anyCaptureAvailable s (turn s)))"
          by (auto simp: steps_computeTargets split: if_splits)
        with notmine Some a empty True assms
        have "applyStep s (sr, sc) (r, c) = Inr (s', out)"
          by (auto simp add: onSquareClick_def Let_def split: if_splits)
        then show ?thesis by (rule applyStep_events)
      next
        case nostep: False
        show ?thesis
        proof (cases "find (\<lambda>(rr, cc, mr, mc). rr = r \<and> cc = c) (caps ?t)")
          case None
          with notmine Some a empty nostep assms show ?thesis
            by (auto simp: onSquareClick_def Let_def)
        next
          case found: (Some cap)
          with notmine Some a empty nostep assms
          have "applyCapture s (sr, sc) cap = Inr (s', out)"
            by (simp add: onSquareClick_def Let_def)
          then show ?thesis by (rule applyCapture_events)
        qed
      qed
    qed
  qed
qed

text \<open>
  In advanced mode with a capture mandatory, a click on a step target of the selection is
  rejected with the generic message and the state is unchanged.
\<close>

lemma forced_step_click_rejected:
  assumes "advanced s" and "chainFrom s \<noteq> None \<or> anyCaptureAvailable s (turn s)"
    and "selected s = Some (sr, sc)" and "(r, c) \<in> set (legalSteps s sr sc)"
  shows "onSquareClick s r c = Inr (s, [Log IllegalMove, Announce IllegalMove])"
proof -
  from legalSteps_piece[OF assms(4)] obtain p where p: "pieceAt (board s) sr sc = Some p" by blast
  note f = legalSteps_facts[OF p assms(4)]
  have nosteps: "steps (computeTargetsForSelection s sr sc) = []"
    using assms(1,2) by (simp add: steps_computeTargets)
  have nocap: "find (\<lambda>(rr, cc, mr, mc). rr = r \<and> cc = c) (captureMoves s sr sc) = None"
  proof -
    have "\<not> (rr = r \<and> cc = c)" if "(rr, cc, mr, mc) \<in> set (captureMoves s sr sc)" for rr cc mr mc
      using captureMoves_facts(5)[OF p that] f(3) by auto
    then show ?thesis by (auto simp: find_None_iff)
  qed
  show ?thesis
    using f(2) assms(3) nosteps nocap
    by (simp add: onSquareClick_def Let_def caps_computeTargets)
qed

subsection \<open>Initial placement\<close>

lemma initial_board_cells:
  "list_all (\<lambda>r. list_all (\<lambda>c.
      pieceAt (setupPieces makeEmptyBoard) r c =
        (if dark r c \<and> r \<le> 2 then Some \<lparr>color = BLACK, king = False\<rparr>
         else if dark r c \<and> r \<ge> 5 then Some \<lparr>color = RED, king = False\<rparr>
         else None)) [0..SIZE - 1]) [0..SIZE - 1]"
  by code_simp

lemma initial_counts:
  "countPieces (resetGame initialState) RED = 12 \<and> countPieces (resetGame initialState) BLACK = 12"
  by code_simp

section \<open>The claims\<close>

text \<open>
  Claim C1. In advanced mode, when a chain is in progress or the side to move has a capture
  anywhere, \<^verbatim>\<open>computeTargetsForSelection\<close> for a cell holding a piece returns no steps and
  exactly the captures of that cell; for a piece without captures both lists are empty.
\<close>

theorem forced_capture_targets:
  assumes "advanced s" and "chainFrom s \<noteq> None \<or> anyCaptureAvailable s (turn s)"
    and "wf_board (board s)" and "within r c" and "pieceAt (board s) r c = Some p"
  shows "computeTargetsForSelection s r c = \<lparr>steps = [], caps = captureMoves s r c\<rparr> \<and>
         (captureMoves s r c = [] \<longrightarrow>
            computeTargetsForSelection s r c = \<lparr>steps = [], caps = []\<rparr>)"
  using assms(1,2,5)
  by (cases "chainFrom s") (simp_all add: computeTargetsForSelection_def Let_def)

text \<open>
  The position of the forced-capture self-test: the man on (5,0) is offered nothing, the man
  on (3,2) only its capture.
\<close>

theorem forced_capture_targets_witness:
  "advanced forcedState \<and> anyCaptureAvailable forcedState (turn forcedState) \<and>
   wf_board (board forcedState) \<and> within 5 0 \<and> pieceAt (board forcedState) 5 0 = Some redMan \<and>
   captureMoves forcedState 5 0 = [] \<and>
   computeTargetsForSelection forcedState 5 0 = \<lparr>steps = [], caps = []\<rparr> \<and>
   within 3 2 \<and> pieceAt (board forcedState) 3 2 = Some redMan \<and>
   computeTargetsForSelection forcedState 3 2 = \<lparr>steps = [], caps = [(1, 4, 2, 3)]\<rparr>"
proof -
  have h: "advanced forcedState" "anyCaptureAvailable forcedState (turn forcedState)"
    "wf_board (board forcedState)" "within 5 0" "pieceAt (board forcedState) 5 0 = Some redMan"
    "within 3 2" "pieceAt (board forcedState) 3 2 = Some redMan"
    by code_simp+
  have c: "captureMoves forcedState 5 0 = []" "captureMoves forcedState 3 2 = [(1, 4, 2, 3)]"
    by code_simp+
  from forced_capture_targets[OF h(1) disjI2[OF h(2)] h(3,4,5)]
       forced_capture_targets[OF h(1) disjI2[OF h(2)] h(3,6,7)] h c
  show ?thesis by simp
qed

text \<open>
  Claim C2. The claim is that a step attempted while a capture is mandatory is rejected with
  the forced-capture message. In the position of the forced-capture self-test, with the man
  on (5,0) selected, the click on its step target (4,1) leaves the state as it is but emits
  the generic illegal-move message.
\<close>

theorem forced_step_rejected_as_illegal_move:
  "advanced forcedState \<and> anyCaptureAvailable forcedState (turn forcedState) \<and>
   selected forcedState = Some (5, 0) \<and> pieceAt (board forcedState) 4 1 = None \<and>
   (4, 1) \<in> set (legalSteps forcedState 5 0) \<and>
   onSquareClick forcedState 4 1 = Inr (forcedState, [Log IllegalMove, Announce IllegalMove])"
  by (intro conjI; code_simp)

text \<open>
  So the result of that click is not the rejection with the forced-capture message.
\<close>

theorem forced_step_rejected_as_illegal_move_witness:
  "onSquareClick forcedState 4 1 \<noteq>
     Inr (forcedState, [Log CaptureAvailableMustTake, Announce CaptureAvailableMustTake])"
  using forced_step_rejected_as_illegal_move by simp

text \<open>
  Claim C3. For a cell holding a piece, \<^verbatim>\<open>captureMoves\<close> lists exactly the directions in
  which a capture is available (middle and landing cell in bounds, middle cell holding a
  piece of the opposite colour, landing cell empty), in the order up-left, up-right,
  down-left, down-right restricted to the directions the piece may use.
\<close>

theorem captureMoves_refines_spec:
  assumes "wf_board (board s)" and "within r c" and "pieceAt (board s) r c = Some p"
  shows "captureMoves s r c = captureMovesSpec (board s) p r c \<and>
         (\<forall>d. captureEntry r c d \<in> set (captureMoves s r c) \<longleftrightarrow>
               d \<in> set canonicalDirs \<and> allowedDir p d \<and> captureAvailable (board s) p r c d)"
proof -
  have eq: "captureMoves s r c = captureMovesSpec (board s) p r c"
    using assms(3) by (simp add: captureMoves_def captureMovesSpec_def capsLoop_eq dirsOf_eq)
  have "captureEntry r c d \<in> set (captureMovesSpec (board s) p r c) \<longleftrightarrow>
          d \<in> set canonicalDirs \<and> allowedDir p d \<and> captureAvailable (board s) p r c d" for d
    unfolding captureMovesSpec_def by (auto simp: captureEntry_inj)
  with eq show ?thesis by simp
qed

text \<open>
  The king on (0,3) after the first capture of the "King then continue backward" self-test.
\<close>

theorem captureMoves_refines_spec_witness:
  "wf_board (board kingChainAfter) \<and> within 0 3 \<and>
   pieceAt (board kingChainAfter) 0 3 = Some (redMan\<lparr>king := True\<rparr>) \<and>
   captureMovesSpec (board kingChainAfter) (redMan\<lparr>king := True\<rparr>) 0 3 = [(2, 5, 1, 4)] \<and>
   captureMoves kingChainAfter 0 3 = [(2, 5, 1, 4)]"
proof -
  have h: "wf_board (board kingChainAfter)" "within 0 3"
    "pieceAt (board kingChainAfter) 0 3 = Some (redMan\<lparr>king := True\<rparr>)"
    by code_simp+
  have c: "captureMovesSpec (board kingChainAfter) (redMan\<lparr>king := True\<rparr>) 0 3 = [(2, 5, 1, 4)]"
    by code_simp
  from captureMoves_refines_spec[OF h] h c show ?thesis by simp
qed

text \<open>
  Claim C4. After an accepted capture, if the mode is advanced and the landing cell has a
  further capture, the turn stays and the chain origin is the landing cell; otherwise the
  turn passes to the other colour and the chain origin is cleared. An accepted step always
  passes the turn and leaves no chain origin.
\<close>

theorem turn_after_move:
  "(captureClick s r c sr sc mr mc \<longrightarrow>
      (\<exists>s' out. onSquareClick s r c = Inr (s', out) \<and>
         (if advanced s \<and> captureMoves s' r c \<noteq> []
          then turn s' = turn s \<and> chainFrom s' = Some (r, c)
          else turn s' = opposite (turn s) \<and> chainFrom s' = None))) \<and>
   (stepClick s r c sr sc \<longrightarrow>
      (\<exists>s' out. onSquareClick s r c = Inr (s', out) \<and>
         turn s' = opposite (turn s) \<and> chainFrom s' = None))"
proof (intro conjI impI)
  assume cc: "captureClick s r c sr sc mr mc"
  from capture_result[OF cc] obtain p out where
    e: "onSquareClick s r c =
       Inr (if advanced s \<and> captureMoves (afterCapture s sr sc r c mr mc p) r c \<noteq> []
            then afterCapture s sr sc r c mr mc p
            else (afterCapture s sr sc r c mr mc p)
                   \<lparr>selected := None, chainFrom := None, turn := opposite (turn s)\<rparr>, out)"
    by blast
  let ?s4 = "afterCapture s sr sc r c mr mc p"
  let ?s5 = "?s4\<lparr>selected := None, chainFrom := None, turn := opposite (turn s)\<rparr>"
  have same: "captureMoves ?s5 r c = captureMoves ?s4 r c"
    by (rule captureMoves_board) simp
  have t4: "turn ?s4 = turn s" "chainFrom ?s4 = Some (r, c)"
    by (simp_all add: afterCapture_def)
  show "\<exists>s' out. onSquareClick s r c = Inr (s', out) \<and>
         (if advanced s \<and> captureMoves s' r c \<noteq> []
          then turn s' = turn s \<and> chainFrom s' = Some (r, c)
          else turn s' = opposite (turn s) \<and> chainFrom s' = None)"
  proof (cases "advanced s \<and> captureMoves ?s4 r c \<noteq> []")
    case True
    with e have "onSquareClick s r c = Inr (?s4, out)" by simp
    with True t4 show ?thesis by simp
  next
    case False
    with e have "onSquareClick s r c = Inr (?s5, out)" by simp
    moreover from False same have "\<not> (advanced s \<and> captureMoves ?s5 r c \<noteq> [])" by simp
    ultimately show ?thesis by simp
  qed
next
  assume sc: "stepClick s r c sr sc"
  from step_click[OF sc] show "\<exists>s' out. onSquareClick s r c = Inr (s', out) \<and>
         turn s' = opposite (turn s) \<and> chainFrom s' = None"
    by auto
qed

text \<open>
  A capture that continues (the kinging self-test) and the opening step from (5,0) to (4,1).
\<close>

theorem turn_after_move_witness:
  "captureClick kingChainState 0 3 2 1 1 2 \<and>
   (\<exists>s' out. onSquareClick kingChainState 0 3 = Inr (s', out) \<and>
      (if advanced kingChainState \<and> captureMoves s' 0 3 \<noteq> []
       then turn s' = turn kingChainState \<and> chainFrom s' = Some (0, 3)
       else turn s' = opposite (turn kingChainState) \<and> chainFrom s' = None)) \<and>
   stepClick openingState 4 1 5 0 \<and>
   (\<exists>s' out. onSquareClick openingState 4 1 = Inr (s', out) \<and>
      turn s' = opposite (turn openingState) \<and> chainFrom s' = None)"
proof -
  have h1: "captureClick kingChainState 0 3 2 1 1 2" by code_simp
  have h2: "stepClick openingState 4 1 5 0" by code_simp
  from turn_after_move[of kingChainState 0 3 2 1 1 2] h1
       turn_after_move[of openingState 4 1 5 0] h2
  show ?thesis by blast
qed

text \<open>
  Claim C5. \<^verbatim>\<open>maybeKinging\<close> changes a piece exactly when the mode is advanced, the piece
  is not a king, and it is a red piece on row 0 or a black piece on row 7, and then it sets
  the king flag; a king is left as it is, kinging twice is kinging once, and simple mode
  never promotes. \<^verbatim>\<open>movePiece\<close> stores the piece at the target already passed through
  \<^verbatim>\<open>maybeKinging\<close> for the target row.
\<close>

theorem kinging_spec:
  "maybeKinging s r p =
     (if advanced s \<and> \<not> king p \<and> (color p = RED \<and> r = 0 \<or> color p = BLACK \<and> r = 7)
      then p\<lparr>king := True\<rparr> else p) \<and>
   (maybeKinging s r p \<noteq> p \<longleftrightarrow>
      advanced s \<and> \<not> king p \<and> (color p = RED \<and> r = 0 \<or> color p = BLACK \<and> r = 7)) \<and>
   (king p \<longrightarrow> maybeKinging s r p = p) \<and>
   maybeKinging s r (maybeKinging s r p) = maybeKinging s r p \<and>
   (\<not> advanced s \<longrightarrow> maybeKinging s r p = p) \<and>
   (wf_board (board s) \<and> within fr fc \<and> within r tc \<and> pieceAt (board s) fr fc = Some p \<longrightarrow>
      (\<exists>s'. movePiece s (fr, fc) (r, tc) = Inr s' \<and>
            pieceAt (board s') r tc = Some (maybeKinging s r p) \<and>
            ((fr, fc) \<noteq> (r, tc) \<longrightarrow> pieceAt (board s') fr fc = None)))"
proof -
  have 1: "maybeKinging s r p =
     (if advanced s \<and> \<not> king p \<and> (color p = RED \<and> r = 0 \<or> color p = BLACK \<and> r = 7)
      then p\<lparr>king := True\<rparr> else p)"
    by (cases "color p") (auto simp: maybeKinging_def SIZE_def)
  have neq: "p\<lparr>king := True\<rparr> \<noteq> p" if "\<not> king p"
  proof
    assume "p\<lparr>king := True\<rparr> = p"
    then have "king (p\<lparr>king := True\<rparr>) = king p" by simp
    with that show False by simp
  qed
  have 2: "maybeKinging s r p \<noteq> p \<longleftrightarrow>
      advanced s \<and> \<not> king p \<and> (color p = RED \<and> r = 0 \<or> color p = BLACK \<and> r = 7)"
    unfolding 1 using neq by auto
  have 3: "king p \<longrightarrow> maybeKinging s r p = p" by (simp add: maybeKinging_def)
  have 4: "maybeKinging s r (maybeKinging s r p) = maybeKinging s r p"
    by (simp add: maybeKinging_def)
  have 5: "\<not> advanced s \<longrightarrow> maybeKinging s r p = p" by (simp add: maybeKinging_def)
  have 6: "\<exists>s'. movePiece s (fr, fc) (r, tc) = Inr s' \<and>
            pieceAt (board s') r tc = Some (maybeKinging s r p) \<and>
            ((fr, fc) \<noteq> (r, tc) \<longrightarrow> pieceAt (board s') fr fc = None)"
    if "wf_board (board s)" "within fr fc" "within r tc" "pieceAt (board s) fr fc = Some p"
    using that by (auto simp: movePiece_Some pieceAt_setPiece wf_setPiece)
  from 1 2 3 4 5 6 show ?thesis by blast
qed

text \<open>
  The red man moved from (2,1) to (0,3) in advanced mode arrives as a king.
\<close>

theorem kinging_spec_witness:
  "wf_board (board kingChainState) \<and> within 2 1 \<and> within 0 3 \<and>
   pieceAt (board kingChainState) 2 1 = Some redMan \<and> advanced kingChainState \<and> \<not> king redMan \<and>
   maybeKinging kingChainState 0 redMan = redMan\<lparr>king := True\<rparr> \<and>
   (\<exists>s'. movePiece kingChainState (2, 1) (0, 3) = Inr s' \<and>
         pieceAt (board s') 0 3 = Some (redMan\<lparr>king := True\<rparr>) \<and> pieceAt (board s') 2 1 = None)"
proof -
  have h: "wf_board (board kingChainState)" "within 2 1" "within 0 3"
    "pieceAt (board kingChainState) 2 1 = Some redMan" "advanced kingChainState" "\<not> king redMan"
    "color redMan = RED"
    by code_simp+
  from kinging_spec[of kingChainState 0 redMan 2 1 3] h show ?thesis by auto
qed

text \<open>
  Claim C6. Every state reachable from the initial placement by clicks on squares, mode
  toggles and new games has an 8 by 8 board of cells holding at most one piece each (a cell
  is a \<open>piece option\<close>), with every occupied cell dark.
\<close>

theorem reachable_boardInvariant:
  assumes "reachable s"
  shows "wf_board (board s) \<and>
         (\<forall>r c. within r c \<longrightarrow> pieceAt (board s) r c \<noteq> None \<longrightarrow> dark r c)"
  using reachable_stateInvariant[OF assms]
  by (simp add: stateInvariant_iff boardInvariant_iff)

text \<open>
  The state after the first click of a game, which selects the red man on (5,0).
\<close>

theorem reachable_boardInvariant_witness:
  "reachable openingState \<and> wf_board (board openingState) \<and>
   within 5 0 \<and> pieceAt (board openingState) 5 0 \<noteq> None \<and> dark 5 0"
proof -
  have w: "within 5 0" by code_simp
  have e: "onSquareClick (resetGame initialState) 5 0 = Inr (openingState, [])" by code_simp
  have r: "reachable openingState" by (rule reachable.click[OF reachable.start w e])
  have p: "pieceAt (board openingState) 5 0 \<noteq> None" by code_simp
  from reachable_boardInvariant[OF r] r w p show ?thesis by blast
qed

text \<open>
  Claim C7, as stated: for every board and every cell holding a piece, every target of
  \<^verbatim>\<open>legalSteps\<close> and every landing and middle cell of \<^verbatim>\<open>captureMoves\<close> is in
  bounds and dark. It fails on the multi-jump board of \<^verbatim>\<open>runTests\<close>: the red man on the
  light cell (5,1) is offered the step to (4,0) and the capture over (4,2) to (3,3), all
  of them light cells.
\<close>

theorem moves_on_light_cells_counterexample:
  "wf_board (board multiJumpState) \<and> within 5 1 \<and>
   pieceAt (board multiJumpState) 5 1 = Some redMan \<and>
   legalSteps multiJumpState 5 1 = [(4, 0)] \<and> \<not> dark 4 0 \<and>
   captureMoves multiJumpState 5 1 = [(3, 3, 4, 2)] \<and> \<not> dark 3 3 \<and> \<not> dark 4 2"
  by (intro conjI; code_simp)

text \<open>
  Claim C7, amended: on every 8 by 8 board, for every cell holding a piece, every target of
  \<^verbatim>\<open>legalSteps\<close> and every landing and middle cell of \<^verbatim>\<open>captureMoves\<close> is in
  bounds, and is dark whenever the cell of the piece is dark, as it is on every board
  satisfying the board invariant.
\<close>

theorem moves_in_bounds_dark_if_origin_dark:
  assumes "wf_board (board s)" and "within r c" and "pieceAt (board s) r c = Some p"
  shows "(\<forall>(nr, nc) \<in> set (legalSteps s r c). within nr nc \<and> (dark r c \<longrightarrow> dark nr nc)) \<and>
         (\<forall>(tr, tc, mr, mc) \<in> set (captureMoves s r c).
            within tr tc \<and> within mr mc \<and> (dark r c \<longrightarrow> dark tr tc \<and> dark mr mc)) \<and>
         (boardInvariant (board s) \<longrightarrow> dark r c)"
proof -
  have 1: "within nr nc \<and> (dark r c \<longrightarrow> dark nr nc)"
    if "(nr, nc) \<in> set (legalSteps s r c)" for nr nc
  proof -
    from legalSteps_mem[OF assms(3) that] obtain d where
      d: "d \<in> set (dirsOf p)" "nr = r + fst d" "nc = c + snd d" "within nr nc" by blast
    from dirs_unit[OF d(1)] have "dark r c \<longrightarrow> dark (r + fst d) (c + snd d)"
      using dark_shift[of r c "fst d" "snd d"] by blast
    with d show ?thesis by simp
  qed
  have 2: "within tr tc \<and> within mr mc \<and> (dark r c \<longrightarrow> dark tr tc \<and> dark mr mc)"
    if "(tr, tc, mr, mc) \<in> set (captureMoves s r c)" for tr tc mr mc
  proof -
    from captureMoves_mem[OF assms(3) that] obtain d where
      d: "d \<in> set (dirsOf p)" "tr = r + 2 * fst d" "tc = c + 2 * snd d"
         "mr = r + fst d" "mc = c + snd d" "captureAvailable (board s) p r c d" by blast
    from dirs_unit[OF d(1)]
    have "dark r c \<longrightarrow> dark (r + fst d) (c + snd d) \<and> dark (r + 2 * fst d) (c + 2 * snd d)"
      using dark_shift[of r c "fst d" "snd d"] by blast
    with d show ?thesis by (auto simp: captureAvailable_def)
  qed
  have 3: "boardInvariant (board s) \<longrightarrow> dark r c"
    using assms(2,3) boardInvariant_dark by blast
  from 1 2 3 show ?thesis by blast
qed

text \<open>
  The red man on the dark cell (3,2) next to a black man on (2,3): one step, one capture,
  all on dark cells; and the man on the light cell (5,1) of the multi-jump board, whose
  targets are in bounds.
\<close>

theorem moves_in_bounds_dark_if_origin_dark_witness:
  "wf_board (board simpleCaptureState) \<and> within 3 2 \<and>
   pieceAt (board simpleCaptureState) 3 2 = Some redMan \<and> dark 3 2 \<and>
   legalSteps simpleCaptureState 3 2 = [(2, 1)] \<and> within 2 1 \<and> dark 2 1 \<and>
   captureMoves simpleCaptureState 3 2 = [(1, 4, 2, 3)] \<and>
   within 1 4 \<and> dark 1 4 \<and> within 2 3 \<and> dark 2 3 \<and>
   wf_board (board multiJumpState) \<and> within 5 1 \<and>
   pieceAt (board multiJumpState) 5 1 = Some redMan \<and>
   legalSteps multiJumpState 5 1 = [(4, 0)] \<and> within 4 0 \<and>
   captureMoves multiJumpState 5 1 = [(3, 3, 4, 2)] \<and> within 3 3 \<and> within 4 2"
proof -
  have h: "wf_board (board simpleCaptureState)" "within 3 2"
    "pieceAt (board simpleCaptureState) 3 2 = Some redMan"
    by code_simp+
  have d: "dark 3 2" by code_simp
  have c: "legalSteps simpleCaptureState 3 2 = [(2, 1)]"
    "captureMoves simpleCaptureState 3 2 = [(1, 4, 2, 3)]"
    by code_simp+
  have h': "wf_board (board multiJumpState)" "within 5 1"
    "pieceAt (board multiJumpState) 5 1 = Some redMan"
    by code_simp+
  have c': "legalSteps multiJumpState 5 1 = [(4, 0)]"
    "captureMoves multiJumpState 5 1 = [(3, 3, 4, 2)]"
    by code_simp+
  from moves_in_bounds_dark_if_origin_dark[OF h] moves_in_bounds_dark_if_origin_dark[OF h']
    h d c h' c'
  show ?thesis by simp
qed

text \<open>
  Claim C8. After \<^verbatim>\<open>resetGame\<close> every dark cell of rows 0 to 2 holds a black man, every
  dark cell of rows 5 to 7 a red man, and every other cell is empty; there are 12 pieces of
  each colour, red is to move, selection and chain origin are cleared and both scores are 0.
\<close>

theorem resetGame_initial_placement:
  "(\<forall>r c. within r c \<longrightarrow>
      pieceAt (board (resetGame s)) r c =
        (if dark r c \<and> r \<le> 2 then Some \<lparr>color = BLACK, king = False\<rparr>
         else if dark r c \<and> r \<ge> 5 then Some \<lparr>color = RED, king = False\<rparr>
         else None)) \<and>
   wf_board (board (resetGame s)) \<and>
   countPieces (resetGame s) RED = 12 \<and> countPieces (resetGame s) BLACK = 12 \<and>
   turn (resetGame s) = RED \<and> selected (resetGame s) = None \<and> chainFrom (resetGame s) = None \<and>
   score (resetGame s) = \<lparr>red = 0, black = 0\<rparr>"
proof -
  have b: "board (resetGame s) = setupPieces makeEmptyBoard" for s
    by (simp add: resetGame_def)
  have cells: "pieceAt (board (resetGame s)) r c =
        (if dark r c \<and> r \<le> 2 then Some \<lparr>color = BLACK, king = False\<rparr>
         else if dark r c \<and> r \<ge> 5 then Some \<lparr>color = RED, king = False\<rparr>
         else None)" if "within r c" for r c
  proof -
    from that have "r \<in> set [0..SIZE - 1]" "c \<in> set [0..SIZE - 1]"
      by (auto simp: within_def)
    with initial_board_cells show ?thesis unfolding b list_all_iff by blast
  qed
  have wf: "wf_board (board (resetGame s))"
    using boardInvariant_initial by (simp add: b boardInvariant_def)
  have "countPieces (resetGame s) col = countPieces (resetGame initialState) col" for col
    by (rule countPieces_board) (simp add: b)
  with initial_counts have cnt: "countPieces (resetGame s) RED = 12" "countPieces (resetGame s) BLACK = 12"
    by simp_all
  have rest: "turn (resetGame s) = RED" "selected (resetGame s) = None" "chainFrom (resetGame s) = None"
    "score (resetGame s) = \<lparr>red = 0, black = 0\<rparr>"
    by (simp_all add: resetGame_def)
  from cells wf cnt rest show ?thesis by blast
qed

text \<open>
  Four cells of the initial placement: a black man, a red man, an empty dark cell and a
  light cell.
\<close>

theorem resetGame_initial_placement_witness:
  "within 2 1 \<and> pieceAt (board (resetGame initialState)) 2 1 = Some \<lparr>color = BLACK, king = False\<rparr> \<and>
   within 5 0 \<and> pieceAt (board (resetGame initialState)) 5 0 = Some \<lparr>color = RED, king = False\<rparr> \<and>
   within 4 1 \<and> pieceAt (board (resetGame initialState)) 4 1 = None \<and>
   within 7 7 \<and> pieceAt (board (resetGame initialState)) 7 7 = None"
proof -
  have w: "within 2 1" "within 5 0" "within 4 1" "within 7 7"
    by (simp_all add: within_def SIZE_def)
  have d: "dark 2 1" "dark 5 0" "dark 4 1" "\<not> dark 7 7"
    by (simp_all add: dark_def)
  from resetGame_initial_placement[of initialState] w d show ?thesis by simp
qed

text \<open>
  Claim C9. In advanced mode, when an accepted capture lands a man on its promotion row, the
  piece on the landing cell is a king when the continuation is evaluated: the captures from
  the landing cell are those of a king, over all four directions, and if there is one (a
  backward one in particular) the turn stays and the chain continues from the landing cell.
\<close>

theorem kinging_before_chain:
  assumes "advanced s" and "captureClick s r c sr sc mr mc"
    and "pieceAt (board s) sr sc = Some p" and "\<not> king p"
    and "color p = RED \<and> r = 0 \<or> color p = BLACK \<and> r = 7"
  shows "\<exists>s' out. onSquareClick s r c = Inr (s', out) \<and>
     pieceAt (board s') r c = Some (p\<lparr>king := True\<rparr>) \<and>
     captureMoves s' r c =
       map (captureEntry r c)
         (filter (captureAvailable (board s') (p\<lparr>king := True\<rparr>) r c) canonicalDirs) \<and>
     (captureMoves s' r c \<noteq> [] \<longrightarrow>
        turn s' = turn s \<and> chainFrom s' = Some (r, c) \<and> selected s' = Some (r, c)) \<and>
     (\<forall>d \<in> set canonicalDirs. captureAvailable (board s') (p\<lparr>king := True\<rparr>) r c d \<longrightarrow>
        turn s' = turn s \<and> chainFrom s' = Some (r, c) \<and> selected s' = Some (r, c))"
proof -
  let ?k = "p\<lparr>king := True\<rparr>"
  let ?s4 = "afterCapture s sr sc r c mr mc p"
  define s' where "s' =
    (if advanced s \<and> captureMoves ?s4 r c \<noteq> [] then ?s4
     else ?s4\<lparr>selected := None, chainFrom := None, turn := opposite (turn s)\<rparr>)"
  from capture_result[OF assms(2)] assms(3) obtain out where
    e: "onSquareClick s r c = Inr (s', out)"
    unfolding s'_def by auto
  note f = captureClick_facts[OF assms(2,3)]
  have k: "maybeKinging s r p = ?k"
    using assms(1,4,5) by (auto simp: maybeKinging_def SIZE_def)
  have b: "board s' = board ?s4" by (simp add: s'_def)
  have "pieceAt (board ?s4) r c = Some ?k"
    using afterCapture_board[OF f(1,2,3,4) f(3), of p] f(9) k by auto
  then have at: "pieceAt (board s') r c = Some ?k" by (simp add: b)
  have allowed: "filter (allowedDir ?k) canonicalDirs = canonicalDirs"
    by (simp add: allowedDir_def)
  have cm: "captureMoves s' r c =
       map (captureEntry r c) (filter (captureAvailable (board s') ?k r c) canonicalDirs)"
    using at by (simp add: captureMoves_def capsLoop_eq[of _ ?k, simplified] dirsOf_eq allowed)
  have same: "captureMoves ?s4 r c = captureMoves s' r c"
    by (rule captureMoves_board) (simp add: b)
  have chain: "turn s' = turn s \<and> chainFrom s' = Some (r, c) \<and> selected s' = Some (r, c)"
    if ne: "captureMoves s' r c \<noteq> []"
  proof -
    have "captureMoves ?s4 r c \<noteq> []" unfolding same by (rule ne)
    with assms(1) have "s' = ?s4" by (simp add: s'_def)
    then show ?thesis by (simp add: afterCapture_def)
  qed
  have bwd: "turn s' = turn s \<and> chainFrom s' = Some (r, c) \<and> selected s' = Some (r, c)"
    if "d \<in> set canonicalDirs" "captureAvailable (board s') ?k r c d" for d
  proof -
    from that have "filter (captureAvailable (board s') ?k r c) canonicalDirs \<noteq> []"
      by (auto simp: filter_empty_conv)
    with cm have "captureMoves s' r c \<noteq> []" by simp
    then show ?thesis by (rule chain)
  qed
  from e at cm chain bwd show ?thesis by blast
qed

text \<open>
  The "King then continue backward" self-test: the man captures from (2,1) to (0,3), is
  kinged, and must go on to capture backward over (1,4) to (2,5).
\<close>

theorem kinging_before_chain_witness:
  "advanced kingChainState \<and> captureClick kingChainState 0 3 2 1 1 2 \<and>
   pieceAt (board kingChainState) 2 1 = Some redMan \<and> \<not> king redMan \<and> color redMan = RED \<and>
   (\<exists>s' out. onSquareClick kingChainState 0 3 = Inr (s', out) \<and>
      pieceAt (board s') 0 3 = Some (redMan\<lparr>king := True\<rparr>) \<and>
      captureMoves s' 0 3 = [(2, 5, 1, 4)] \<and>
      turn s' = RED \<and> chainFrom s' = Some (0, 3) \<and> selected s' = Some (0, 3))"
proof -
  have h: "advanced kingChainState" "captureClick kingChainState 0 3 2 1 1 2"
    "pieceAt (board kingChainState) 2 1 = Some redMan" "\<not> king redMan" "color redMan = RED"
    "turn kingChainState = RED"
    by code_simp+
  from kinging_before_chain[OF h(1,2,3,4)] h(5) obtain s' out where
    e: "onSquareClick kingChainState 0 3 = Inr (s', out)"
    and k: "pieceAt (board s') 0 3 = Some (redMan\<lparr>king := True\<rparr>)"
    and ch: "captureMoves s' 0 3 \<noteq> [] \<longrightarrow>
        turn s' = turn kingChainState \<and> chainFrom s' = Some (0, 3) \<and> selected s' = Some (0, 3)"
    by auto
  have a: "afterCapture kingChainState 2 1 0 3 1 2 redMan = kingChainAfter" by code_simp
  have m4: "captureMoves kingChainAfter 0 3 = [(2, 5, 1, 4)]" by code_simp
  from capture_result[OF h(2)] h(3) obtain evs where
    "onSquareClick kingChainState 0 3 =
       Inr (if advanced kingChainState \<and>
               captureMoves (afterCapture kingChainState 2 1 0 3 1 2 redMan) 0 3 \<noteq> []
            then afterCapture kingChainState 2 1 0 3 1 2 redMan
            else (afterCapture kingChainState 2 1 0 3 1 2 redMan)
                   \<lparr>selected := None, chainFrom := None,
                      turn := opposite (turn kingChainState)\<rparr>, evs)"
    by auto
  then have "onSquareClick kingChainState 0 3 = Inr (kingChainAfter, evs)"
    unfolding a using m4 h(1) by simp
  with e have "s' = kingChainAfter" by simp
  with m4 have m: "captureMoves s' 0 3 = [(2, 5, 1, 4)]" by simp
  from h e k ch m show ?thesis by auto
qed

text \<open>
  Claim C10. An accepted capture by a piece of the side to move, in either mode, changes
  exactly three cells: origin and middle cell become empty (both were occupied) and the
  empty landing cell receives the moving piece, promoted if \<^verbatim>\<open>maybeKinging\<close> says so;
  every other cell keeps its content. The score of the capturing colour goes up by one and
  the other score stays. In simple mode the piece arrives unpromoted and the turn passes.
\<close>

theorem capture_frame:
  assumes "captureClick s r c sr sc mr mc" and "pieceAt (board s) sr sc = Some p"
    and "color p = turn s"
  shows "\<exists>s' out. onSquareClick s r c = Inr (s', out) \<and>
     (\<forall>i j. within i j \<longrightarrow>
        pieceAt (board s') i j =
          (if (i, j) = (sr, sc) \<or> (i, j) = (mr, mc) then None
           else if (i, j) = (r, c) then Some (maybeKinging s r p)
           else pieceAt (board s) i j)) \<and>
     distinct [(sr, sc), (mr, mc), (r, c)] \<and> within sr sc \<and> within mr mc \<and> within r c \<and>
     pieceAt (board s) sr sc \<noteq> None \<and> pieceAt (board s) mr mc \<noteq> None \<and>
     pieceAt (board s) r c = None \<and>
     scoreOf s' (color p) = scoreOf s (color p) + 1 \<and>
     scoreOf s' (opposite (color p)) = scoreOf s (opposite (color p)) \<and>
     (\<not> advanced s \<longrightarrow> pieceAt (board s') r c = Some p \<and> turn s' = opposite (turn s))"
proof -
  let ?s4 = "afterCapture s sr sc r c mr mc p"
  define s' where "s' =
    (if advanced s \<and> captureMoves ?s4 r c \<noteq> [] then ?s4
     else ?s4\<lparr>selected := None, chainFrom := None, turn := opposite (turn s)\<rparr>)"
  from capture_result[OF assms(1)] assms(2) obtain out where
    e: "onSquareClick s r c = Inr (s', out)"
    unfolding s'_def by auto
  note f = captureClick_facts[OF assms(1,2)]
  have b: "board s' = board ?s4" by (simp add: s'_def)
  have cells: "pieceAt (board s') i j =
          (if (i, j) = (sr, sc) \<or> (i, j) = (mr, mc) then None
           else if (i, j) = (r, c) then Some (maybeKinging s r p)
           else pieceAt (board s) i j)" if "within i j" for i j
    unfolding b using afterCapture_board[OF f(1,2,3,4) that, of p] f(7,8,9) by auto
  have d: "distinct [(sr, sc), (mr, mc), (r, c)]" using f(7,8,9) by simp
  have occ: "pieceAt (board s) sr sc \<noteq> None" "pieceAt (board s) mr mc \<noteq> None"
    using assms(2) f(6) by auto
  have sc4: "score s' = score ?s4" by (simp add: s'_def)
  have sc1: "scoreOf s' (color p) = scoreOf s (color p) + 1"
    using assms(3) by (simp add: scoreOf_def sc4) (simp add: afterCapture_def)
  have sc2: "scoreOf s' (opposite (color p)) = scoreOf s (opposite (color p))"
    using assms(3) by (simp add: scoreOf_def sc4 opposite_def) (simp add: afterCapture_def)
  have simple: "pieceAt (board s') r c = Some p \<and> turn s' = opposite (turn s)" if "\<not> advanced s"
  proof -
    from cells[OF f(3)] f(7,9) have "pieceAt (board s') r c = Some (maybeKinging s r p)" by auto
    moreover from that have "maybeKinging s r p = p" by (simp add: maybeKinging_def)
    moreover from that have "turn s' = opposite (turn s)" by (simp add: s'_def)
    ultimately show ?thesis by simp
  qed
  from e cells d f(2,3,4,5) occ sc1 sc2 simple show ?thesis by blast
qed

text \<open>
  The capture from (3,2) over (2,3) to (1,4) in simple mode.
\<close>

theorem capture_frame_witness:
  "captureClick simpleCaptureState 1 4 3 2 2 3 \<and>
   pieceAt (board simpleCaptureState) 3 2 = Some redMan \<and> color redMan = turn simpleCaptureState \<and>
   \<not> advanced simpleCaptureState \<and>
   (\<exists>s' out. onSquareClick simpleCaptureState 1 4 = Inr (s', out) \<and>
      pieceAt (board s') 3 2 = None \<and> pieceAt (board s') 2 3 = None \<and>
      pieceAt (board s') 1 4 = Some redMan \<and>
      pieceAt (board s') 5 0 = pieceAt (board simpleCaptureState) 5 0 \<and>
      scoreOf s' RED = scoreOf simpleCaptureState RED + 1 \<and>
      scoreOf s' BLACK = scoreOf simpleCaptureState BLACK \<and>
      turn s' = BLACK)"
proof -
  have h: "captureClick simpleCaptureState 1 4 3 2 2 3"
    "pieceAt (board simpleCaptureState) 3 2 = Some redMan"
    "color redMan = turn simpleCaptureState"
    by code_simp+
  have g: "\<not> advanced simpleCaptureState" "color redMan = RED" "turn simpleCaptureState = RED"
    "within 3 2" "within 2 3" "within 1 4" "within 5 0"
    by code_simp+
  from capture_frame[OF h] obtain s' out where
    e: "onSquareClick simpleCaptureState 1 4 = Inr (s', out)"
    and cells: "\<forall>i j. within i j \<longrightarrow>
        pieceAt (board s') i j =
          (if (i, j) = (3, 2) \<or> (i, j) = (2, 3) then None
           else if (i, j) = (1, 4) then Some (maybeKinging simpleCaptureState 1 redMan)
           else pieceAt (board simpleCaptureState) i j)"
    and sc: "scoreOf s' (color redMan) = scoreOf simpleCaptureState (color redMan) + 1"
      "scoreOf s' (opposite (color redMan)) = scoreOf simpleCaptureState (opposite (color redMan))"
    and simple: "\<not> advanced simpleCaptureState \<longrightarrow>
       pieceAt (board s') 1 4 = Some redMan \<and> turn s' = opposite (turn simpleCaptureState)"
    by blast
  from cells g(4,5,7) have "pieceAt (board s') 3 2 = None" "pieceAt (board s') 2 3 = None"
    "pieceAt (board s') 5 0 = pieceAt (board simpleCaptureState) 5 0"
    by simp_all
  with h g e sc simple show ?thesis by (auto simp: opposite_def)
qed

end
